theory Spec2Isabelle
  imports Main "HOL-Library.Sublist"
begin

section \<open>The document tree\<close>

text \<open>
  The query engine of \<^verbatim>\<open>BaseExtension.py\<close> dispatches on \<^verbatim>\<open>type(obj).__name__\<close>.
  The class names the code tests for are the constructors of \<open>type_name\<close>; every other
  element class is \<open>OtherElement\<close>.
\<close>

datatype type_name =
    SvgDocumentElement | Layer | Group | PathElement | ImageElement
  | Defs | NamedView | Metadata | StyleElement | OtherElement

text \<open>
  An element of the document.  Python compares elements by object identity; \<open>nid\<close> stands
  for that identity, so that two elements of one document are equal exactly when they are
  the same object.  A document whose elements are pairwise different objects is one for
  which \<open>distinct (iter root)\<close> holds.
\<close>

datatype node = Node (nid: nat) (kind: type_name) (children: "node list")

text \<open>\<^verbatim>\<open>element.iter()\<close>: the element itself and all its descendants, in document order.\<close>

fun iter :: "node \<Rightarrow> node list" where
  "iter (Node i k cs) = Node i k cs # concat (map iter cs)"

section \<open>Errors and messages\<close>

datatype error =
    IndexError | KeyError string | ValueError | AssertionError | TypeError

type_synonym 'a result = "error + 'a"

text \<open>What a call leaves behind: the lines given to \<^verbatim>\<open>self.msg\<close>, and its value or exception.\<close>

type_synonym outcome = "string list \<times> node list result"

section \<open>Document order: \<^verbatim>\<open>z_iter\<close> and \<^verbatim>\<open>z_sort\<close>\<close>

text \<open>\<^verbatim>\<open>list.remove(x)\<close> deletes the first occurrence and raises \<^verbatim>\<open>ValueError\<close> when there is none.\<close>

definition list_remove :: "'a \<Rightarrow> 'a list \<Rightarrow> 'a list result" where
  "list_remove x xs = (if x \<in> set xs then Inr (remove1 x xs) else Inl ValueError)"

text \<open>
  The loop of \<^verbatim>\<open>z_iter\<close> over the remaining elements of the traversal, with the loop
  variables \<open>id_list\<close> and \<open>count\<close>.  The membership test is against \<open>alist\<close>, the removal
  is from \<open>id_list\<close>.  The result is what \<^verbatim>\<open>list(...)\<close> makes of the generator.
\<close>

fun z_iter_loop :: "node list \<Rightarrow> node list \<Rightarrow> node list \<Rightarrow> int \<Rightarrow> node list result" where
  "z_iter_loop alist [] id_list count = Inr []"
| "z_iter_loop alist (element # rest) id_list count =
     (if element \<in> set alist then
        (case list_remove element id_list of
           Inl e \<Rightarrow> Inl e
         | Inr id_list' \<Rightarrow>
             (if count - 1 = 0 then Inr [element]
              else (case z_iter_loop alist rest id_list' (count - 1) of
                      Inl e \<Rightarrow> Inl e
                    | Inr ys \<Rightarrow> Inr (element # ys))))
      else z_iter_loop alist rest id_list count)"

definition z_iter :: "node \<Rightarrow> node list \<Rightarrow> node list result" where
  "z_iter root alist = z_iter_loop alist (iter root) alist (int (length alist))"

definition z_sort :: "node \<Rightarrow> node list \<Rightarrow> node list result" where
  "z_sort root alist = z_iter root alist"

section \<open>The path expression: one step of the pattern\<close>

text \<open>
  \<^verbatim>\<open>recurse\<close> takes the first match of the pattern
  \<^verbatim>\<open>(//?)(\w+|\*)(?:\[(-?\d+(?::-?(?:\d+)?){0,2})\])?(.*)\<close>
  in the expression it is given.  Expressions are strings over the code points 0..255;
  \<open>is_word\<close> and \<open>is_digit\<close> are Python's \<^verbatim>\<open>\w\<close> and \<^verbatim>\<open>\d\<close> on them.
\<close>

definition is_digit :: "char \<Rightarrow> bool" where
  "is_digit c = (let n = (of_char c :: nat) in 48 \<le> n \<and> n \<le> 57)"

definition is_word :: "char \<Rightarrow> bool" where
  "is_word c = (let n = (of_char c :: nat) in
     (48 \<le> n \<and> n \<le> 57) \<or> (65 \<le> n \<and> n \<le> 90) \<or> n = 95 \<or> (97 \<le> n \<and> n \<le> 122)
     \<or> n = 170 \<or> n = 178 \<or> n = 179 \<or> n = 181 \<or> n = 185 \<or> n = 186
     \<or> (188 \<le> n \<and> n \<le> 190) \<or> (192 \<le> n \<and> n \<le> 214) \<or> (216 \<le> n \<and> n \<le> 246)
     \<or> 248 \<le> n)"

text \<open>\<^verbatim>\<open>-?\<close>: the sign when there is one, and what follows it.\<close>

definition opt_minus :: "string \<Rightarrow> string \<times> string" where
  "opt_minus s = (case s of c # t \<Rightarrow> (if c = CHR ''-'' then (''-'', t) else ([], s)) | [] \<Rightarrow> ([], s))"

text \<open>\<^verbatim>\<open>(?::-?(?:\d+)?)\<close>, once: the text it takes (empty when it does not match) and the rest.\<close>

definition colon_part :: "string \<Rightarrow> string \<times> string" where
  "colon_part s = (case s of
       c # t \<Rightarrow> (if c = CHR '':'' then
                   (let (m, t1) = opt_minus t in
                      (CHR '':'' # m @ takeWhile is_digit t1, dropWhile is_digit t1))
                 else ([], s))
     | [] \<Rightarrow> ([], s))"

text \<open>
  \<^verbatim>\<open>\[(-?\d+(?::-?(?:\d+)?){0,2})\]\<close> at the head of \<open>s\<close>: the text of the group and the
  rest, or \<open>None\<close>.  Every piece is greedy and no shorter choice of a piece lets the next
  one match, so the greedy reading is the only one.
\<close>

definition bracket :: "string \<Rightarrow> (string \<times> string) option" where
  "bracket s = (case s of
       c # s1 \<Rightarrow>
         (if c \<noteq> CHR ''['' then None
          else (let (m, s2) = opt_minus s1;
                    d = takeWhile is_digit s2;
                    s3 = dropWhile is_digit s2
                in if d = [] then None
                   else (let (r1, s4) = colon_part s3;
                             (r2, s5) = (if r1 = [] then ([], s4) else colon_part s4)
                         in (case s5 of
                               c' # s6 \<Rightarrow> (if c' = CHR '']'' then Some (m @ d @ r1 @ r2, s6) else None)
                             | [] \<Rightarrow> None))))
     | [] \<Rightarrow> None)"

text \<open>
  After the axis: \<^verbatim>\<open>(\w+|\*)\<close>, the optional bracket and \<^verbatim>\<open>(.*)\<close>, which stops at a
  newline.  The value is \<open>(this_type, this_n, next_xpath)\<close>.
\<close>

definition after_axis :: "string \<Rightarrow> (string \<times> string \<times> string) option" where
  "after_axis s = (case s of
       [] \<Rightarrow> None
     | c # t \<Rightarrow>
         (let ty = (if is_word c then Some (takeWhile is_word s, dropWhile is_word s)
                    else if c = CHR ''*'' then Some (''*'', t) else None)
          in (case ty of
                None \<Rightarrow> None
              | Some (this_type, r) \<Rightarrow>
                  (case bracket r of
                     Some (this_n, r') \<Rightarrow>
                       Some (this_type, this_n, takeWhile (\<lambda>x. x \<noteq> CHR 0x0A) r')
                   | None \<Rightarrow> Some (this_type, [], takeWhile (\<lambda>x. x \<noteq> CHR 0x0A) r)))))"

text \<open>The pattern at the head of \<open>s\<close>; \<^verbatim>\<open>//?\<close> tries two slashes first, then one.\<close>

definition match_here :: "string \<Rightarrow> (string \<times> string \<times> string \<times> string) option" where
  "match_here s = (case s of
       c # t \<Rightarrow>
         (if c \<noteq> CHR ''/'' then None
          else (case (case t of
                        c' # t' \<Rightarrow> (if c' = CHR ''/'' then map_option (Pair ''//'') (after_axis t') else None)
                      | [] \<Rightarrow> None) of
                  Some r \<Rightarrow> Some r
                | None \<Rightarrow> map_option (Pair ''/'') (after_axis t)))
     | [] \<Rightarrow> None)"

text \<open>
  \<^verbatim>\<open>re.findall(..., cur_xpath, re.VERBOSE)[0]\<close>: the leftmost match, whatever precedes
  it; \<^verbatim>\<open>IndexError\<close> when the pattern matches nowhere.
\<close>

fun findall_first :: "string \<Rightarrow> (string \<times> string \<times> string \<times> string) result" where
  "findall_first [] = Inl IndexError"
| "findall_first (c # t) =
     (case match_here (c # t) of Some r \<Rightarrow> Inr r | None \<Rightarrow> findall_first t)"

section \<open>The index selector\<close>

text \<open>\<^verbatim>\<open>str.split(':')\<close>.\<close>

fun split_colon :: "string \<Rightarrow> string list" where
  "split_colon [] = [[]]"
| "split_colon (c # t) =
     (if c = CHR '':'' then [] # split_colon t
      else (case split_colon t of p # ps \<Rightarrow> (c # p) # ps | [] \<Rightarrow> [[c]]))"

definition digits_val :: "string \<Rightarrow> nat" where
  "digits_val d = foldl (\<lambda>a c. 10 * a + (of_char c - 48)) 0 d"

text \<open>
  \<^verbatim>\<open>int(n)\<close> on the texts the pattern can hand over, an optional sign and digits:
  \<^verbatim>\<open>ValueError\<close> when there is no digit.
\<close>

definition py_int :: "string \<Rightarrow> int result" where
  "py_int t = (let (m, d) = opt_minus t in
     if d \<noteq> [] \<and> list_all is_digit d
     then Inr (if m = [] then int (digits_val d) else - int (digits_val d))
     else Inl ValueError)"

datatype index = NoIndex | Index int | Slice "int option list"

text \<open>\<^verbatim>\<open>[int(n) if n != '' else None for n in ...]\<close>, left to right.\<close>

fun int_parts :: "string list \<Rightarrow> int option list result" where
  "int_parts [] = Inr []"
| "int_parts (n # ns) =
     (if n = [] then (case int_parts ns of Inl e \<Rightarrow> Inl e | Inr vs \<Rightarrow> Inr (None # vs))
      else (case py_int n of
              Inl e \<Rightarrow> Inl e
            | Inr v \<Rightarrow> (case int_parts ns of Inl e \<Rightarrow> Inl e | Inr vs \<Rightarrow> Inr (Some v # vs))))"

text \<open>The conversion of \<^verbatim>\<open>this_n\<close> (lines 154 to 159).\<close>

definition convert_n :: "string \<Rightarrow> index result" where
  "convert_n this_n =
     (if this_n = [] then Inr NoIndex
      else if CHR '':'' \<in> set this_n then
        (case int_parts (split_colon this_n) of Inl e \<Rightarrow> Inl e | Inr vs \<Rightarrow> Inr (Slice vs))
      else (case py_int this_n of Inl e \<Rightarrow> Inl e | Inr v \<Rightarrow> Inr (Index v)))"

text \<open>
  \<^verbatim>\<open>xs[slice(start, stop, step)]\<close>, as CPython computes it: a bound is counted from
  the end when negative and clamped, a missing bound is the far end in the direction of
  the step, and the step decides how many elements there are.  A zero step is a
  \<^verbatim>\<open>ValueError\<close>.
\<close>

definition clamp_bound :: "int \<Rightarrow> int \<Rightarrow> int \<Rightarrow> int" where
  "clamp_bound n st i =
     (if i < 0 then max (i + n) (if st < 0 then - 1 else 0)
      else min i (if st < 0 then n - 1 else n))"

definition slice_start :: "int \<Rightarrow> int \<Rightarrow> int option \<Rightarrow> int" where
  "slice_start n st start =
     (case start of None \<Rightarrow> (if st < 0 then n - 1 else 0) | Some i \<Rightarrow> clamp_bound n st i)"

definition slice_stop :: "int \<Rightarrow> int \<Rightarrow> int option \<Rightarrow> int" where
  "slice_stop n st stop =
     (case stop of None \<Rightarrow> (if st < 0 then - 1 else n) | Some i \<Rightarrow> clamp_bound n st i)"

definition slice_length :: "int \<Rightarrow> int \<Rightarrow> int \<Rightarrow> int" where
  "slice_length a b st =
     (if st < 0 then (if b < a then (a - b - 1) div (- st) + 1 else 0)
      else (if a < b then (b - a - 1) div st + 1 else 0))"

definition py_slice :: "'a list \<Rightarrow> int option \<Rightarrow> int option \<Rightarrow> int option \<Rightarrow> 'a list result" where
  "py_slice xs start stop step =
     (let n = int (length xs);
          st = (case step of None \<Rightarrow> 1 | Some k \<Rightarrow> k)
      in if st = 0 then Inl ValueError
         else (let a = slice_start n st start;
                   b = slice_stop n st stop
               in Inr (map (\<lambda>k. xs ! nat (a + int k * st)) [0..<nat (slice_length a b st)])))"

definition warn_index :: string where
  "warn_index = ''WARN: list index out of range''"

text \<open>
  The \<^verbatim>\<open>try\<close> block (lines 174 to 184).  \<^verbatim>\<open>IndexError\<close> is caught there: a message and
  no match.  The failed assertion and the \<^verbatim>\<open>ValueError\<close> of a zero step are not caught.
\<close>

definition select_matches :: "index \<Rightarrow> node list \<Rightarrow> outcome" where
  "select_matches this_n matching_types =
     (case this_n of
        NoIndex \<Rightarrow> ([], Inr matching_types)
      | Index i \<Rightarrow>
          (let n = int (length matching_types);
               j = (if i < 0 then i + n else i)
           in if 0 \<le> j \<and> j < n then ([], Inr [matching_types ! nat j])
              else ([warn_index], Inr []))
      | Slice parts \<Rightarrow>
          (case parts of
             start # stop # more \<Rightarrow>
               (if stop = None then ([], Inl AssertionError)
                else (case more of
                        [] \<Rightarrow> ([], py_slice matching_types start stop None)
                      | [step] \<Rightarrow> ([], py_slice matching_types start stop step)
                      | _ \<Rightarrow> ([], Inl TypeError)))
           | _ \<Rightarrow> ([warn_index], Inr [])))"

section \<open>The query: \<^verbatim>\<open>find\<close> and its \<^verbatim>\<open>recurse\<close>\<close>

definition tag_dict :: "string \<Rightarrow> type_name option" where
  "tag_dict code =
     (if code = ''l'' then Some Layer
      else if code = ''g'' then Some Group
      else if code = ''p'' then Some PathElement
      else if code = ''img'' then Some ImageElement
      else None)"

definition is_meta :: "node \<Rightarrow> bool" where
  "is_meta obj = (kind obj \<in> {Defs, NamedView, Metadata, StyleElement})"

definition is_iterable :: "node \<Rightarrow> bool" where
  "is_iterable obj = (kind obj \<in> {Group, Layer})"

text \<open>
  \<^verbatim>\<open>this_type == '*' or type(obj).__name__ == tag_dict[this_type]\<close>; the lookup raises
  \<^verbatim>\<open>KeyError\<close> for a code that is not in the table.
\<close>

definition match_type :: "string \<Rightarrow> node \<Rightarrow> bool result" where
  "match_type this_type obj =
     (if this_type = ''*'' then Inr True
      else (case tag_dict this_type of
              None \<Rightarrow> Inl (KeyError this_type)
            | Some k \<Rightarrow> Inr (kind obj = k)))"

text \<open>The loop over \<open>objects\<close> (lines 165 to 171), as far as \<open>matching_types\<close> goes.\<close>

fun matching_loop :: "string \<Rightarrow> node list \<Rightarrow> node list result" where
  "matching_loop this_type [] = Inr []"
| "matching_loop this_type (obj # objs) =
     (case match_type this_type obj of
        Inl e \<Rightarrow> Inl e
      | Inr b \<Rightarrow>
          (case matching_loop this_type objs of
             Inl e \<Rightarrow> Inl e
           | Inr ms \<Rightarrow> Inr (if b then obj # ms else ms)))"

text \<open>
  The last loop (lines 200 to 211): \<^verbatim>\<open>output += recurse(...)\<close> for one container after
  the other.  The first exception ends it; the messages written until then stay.
\<close>

fun seq_results :: "string list \<Rightarrow> node list \<Rightarrow> outcome list \<Rightarrow> outcome" where
  "seq_results msgs output [] = (msgs, Inr output)"
| "seq_results msgs output ((m, Inl e) # rs) = (msgs @ m, Inl e)"
| "seq_results msgs output ((m, Inr ys) # rs) = seq_results (msgs @ m) (output @ ys) rs"

text \<open>
  What \<^verbatim>\<open>recurse\<close> descends into is taken from its own candidates: the facts that
  make its recursion well founded.
\<close>

lemma z_iter_loop_subset:
  "z_iter_loop A T L c = Inr ys \<Longrightarrow> set ys \<subseteq> set A \<inter> set T"
proof (induction T arbitrary: L c ys)
  case Nil
  then show ?case by simp
next
  case (Cons a T)
  then show ?case
    by (fastforce simp: list_remove_def split: if_splits sum.splits)
qed

lemma z_sort_subset: "z_sort root S = Inr objs \<Longrightarrow> set objs \<subseteq> set S"
  unfolding z_sort_def z_iter_def by (drule z_iter_loop_subset) simp

lemma matching_loop_subset:
  "matching_loop ty objs = Inr ms \<Longrightarrow> set ms \<subseteq> set objs"
  by (induction objs arbitrary: ms) (auto split: sum.splits if_splits)

lemma div_times_le:
  fixes m d :: int
  assumes "0 < d"
  shows "m div d * d \<le> m"
proof -
  have "m div d * d = m - m mod d" by (simp add: minus_mod_eq_div_mult)
  moreover have "0 \<le> m mod d" using assms by simp
  ultimately show ?thesis by simp
qed

lemma slice_index_bounds:
  fixes a b st n :: int
  assumes "st \<noteq> 0"
    and "if st < 0 then - 1 \<le> a \<and> a \<le> n - 1 \<and> - 1 \<le> b \<and> b \<le> n - 1
         else 0 \<le> a \<and> a \<le> n \<and> 0 \<le> b \<and> b \<le> n"
    and "int k < slice_length a b st"
  shows "0 \<le> a + int k * st \<and> a + int k * st < n"
proof (cases "st < 0")
  case True
  have ba: "b < a"
    using assms(3) True unfolding slice_length_def by (simp split: if_splits)
  then have k: "int k \<le> (a - b - 1) div (- st)"
    using assms(3) True unfolding slice_length_def by simp
  have "int k * (- st) \<le> ((a - b - 1) div (- st)) * (- st)"
    using k True by (intro mult_right_mono) auto
  also have "\<dots> \<le> a - b - 1" using True by (intro div_times_le) simp
  finally have "int k * (- st) \<le> a - b - 1" .
  moreover have "0 \<le> int k * (- st)" using True by (intro mult_nonneg_nonneg) auto
  moreover have "- 1 \<le> b" "a \<le> n - 1" using assms(2) True by simp_all
  ultimately show ?thesis by simp
next
  case False
  with assms(1) have st: "0 < st" by simp
  have ab: "a < b"
    using assms(3) False unfolding slice_length_def by (simp split: if_splits)
  then have k: "int k \<le> (b - a - 1) div st"
    using assms(3) False unfolding slice_length_def by simp
  have "int k * st \<le> ((b - a - 1) div st) * st"
    using k st by (intro mult_right_mono) auto
  also have "\<dots> \<le> b - a - 1" using st by (intro div_times_le)
  finally have "int k * st \<le> b - a - 1" .
  moreover have "0 \<le> int k * st" using st by (intro mult_nonneg_nonneg) auto
  moreover have "0 \<le> a" "b \<le> n" using assms(2) False by simp_all
  ultimately show ?thesis by simp
qed

lemma clamp_bound_range:
  "0 \<le> n \<Longrightarrow> (if st < 0 then - 1 \<le> clamp_bound n st i \<and> clamp_bound n st i \<le> n - 1
                 else 0 \<le> clamp_bound n st i \<and> clamp_bound n st i \<le> n)"
  unfolding clamp_bound_def by (auto simp: min_def max_def)

lemma slice_start_range:
  "0 \<le> n \<Longrightarrow> (if st < 0 then - 1 \<le> slice_start n st s \<and> slice_start n st s \<le> n - 1
                 else 0 \<le> slice_start n st s \<and> slice_start n st s \<le> n)"
proof (cases s)
  case None
  assume "0 \<le> n"
  with None show ?thesis unfolding slice_start_def by auto
next
  case (Some i)
  assume "0 \<le> n"
  from clamp_bound_range[OF this, of st i] Some show ?thesis unfolding slice_start_def by (auto split: if_splits)
qed

lemma slice_stop_range:
  "0 \<le> n \<Longrightarrow> (if st < 0 then - 1 \<le> slice_stop n st s \<and> slice_stop n st s \<le> n - 1
                 else 0 \<le> slice_stop n st s \<and> slice_stop n st s \<le> n)"
proof (cases s)
  case None
  assume "0 \<le> n"
  with None show ?thesis unfolding slice_stop_def by auto
next
  case (Some i)
  assume "0 \<le> n"
  from clamp_bound_range[OF this, of st i] Some show ?thesis unfolding slice_stop_def by (auto split: if_splits)
qed

lemma py_slice_subset:
  assumes "py_slice xs start stop step = Inr ys"
  shows "set ys \<subseteq> set xs"
proof
  fix y assume y: "y \<in> set ys"
  define n where "n = int (length xs)"
  define st where "st = (case step of None \<Rightarrow> (1::int) | Some k \<Rightarrow> k)"
  define a where "a = slice_start n st start"
  define b where "b = slice_stop n st stop"
  have st0: "st \<noteq> 0"
    using assms unfolding py_slice_def Let_def st_def by (simp split: if_splits)
  then have ys: "ys = map (\<lambda>k. xs ! nat (a + int k * st)) [0..<nat (slice_length a b st)]"
    using assms unfolding py_slice_def Let_def st_def n_def a_def b_def by simp
  from y ys obtain k where k: "k < nat (slice_length a b st)"
    and yk: "y = xs ! nat (a + int k * st)" by auto
  have n0: "0 \<le> n" by (simp add: n_def)
  have bnds: "if st < 0 then - 1 \<le> a \<and> a \<le> n - 1 \<and> - 1 \<le> b \<and> b \<le> n - 1
         else 0 \<le> a \<and> a \<le> n \<and> 0 \<le> b \<and> b \<le> n"
    using slice_start_range[OF n0, of st start] slice_stop_range[OF n0, of st stop]
    unfolding a_def b_def by (simp split: if_splits)
  from k have "int k < slice_length a b st" by simp
  from slice_index_bounds[OF st0 bnds this]
  have "nat (a + int k * st) < length xs" unfolding n_def by linarith
  with yk show "y \<in> set xs" by simp
qed

lemma select_matches_subset:
  "select_matches this_n ms = (msgs, Inr matches) \<Longrightarrow> set matches \<subseteq> set ms"
  unfolding select_matches_def
  by (auto simp: Let_def dest!: py_slice_subset split: index.splits if_splits list.splits)

lemma size_children_less: "obj \<in> set objs \<Longrightarrow> size_list size (children obj) < size_list size objs"
proof (induction objs)
  case Nil
  then show ?case by simp
next
  case (Cons a objs)
  then show ?case by (cases a; cases obj) auto
qed

text \<open>
  One invocation of \<^verbatim>\<open>recurse\<close> up to its last loop (lines 133 to 197), called with
  \<^verbatim>\<open>tb=None\<close> as everywhere in the repository, so without the debug lines.  \<open>root\<close> is
  \<^verbatim>\<open>self.document.getroot()\<close>.  The value holds the messages written and, unless an
  exception ended the call, \<open>output\<close>, \<open>to_recurse\<close> and the expression the last loop
  passes on: \<^verbatim>\<open>next_xpath if only_immediate else cur_xpath\<close>.
\<close>

definition this_call ::
  "node \<Rightarrow> node list \<Rightarrow> string \<Rightarrow> string list \<times> (node list \<times> node list \<times> string) result" where
  "this_call root objects cur_xpath =
     (case z_sort root objects of
        Inl e \<Rightarrow> ([], Inl e)
      | Inr objs \<Rightarrow>
     (case findall_first cur_xpath of
        Inl e \<Rightarrow> ([], Inl e)
      | Inr (axis, this_type, n_text, next_xpath) \<Rightarrow>
     (case convert_n n_text of
        Inl e \<Rightarrow> ([], Inl e)
      | Inr this_n \<Rightarrow>
     (case matching_loop this_type objs of
        Inl e \<Rightarrow> ([], Inl e)
      | Inr matching_types \<Rightarrow>
     (case select_matches this_n matching_types of
        (msgs, Inl e) \<Rightarrow> (msgs, Inl e)
      | (msgs, Inr matches) \<Rightarrow>
          (let only_immediate = (axis \<noteq> ''//'');
               output = (if only_immediate \<and> next_xpath \<noteq> [] then [] else matches);
               to_recurse = (if only_immediate then (if next_xpath = [] then [] else matches)
                             else objs)
           in (msgs, Inr (output, to_recurse,
                          if only_immediate then next_xpath else cur_xpath))))))))"

lemma this_call_subset:
  assumes "this_call root objects cur_xpath = (msgs, Inr (out, to_recurse, xp))"
  shows "set to_recurse \<subseteq> set objects"
proof -
  from assms obtain objs this_type this_n matching_types matches where
    zs: "z_sort root objects = Inr objs"
    and ml: "matching_loop this_type objs = Inr matching_types"
    and sel: "select_matches this_n matching_types = (msgs, Inr matches)"
    and tr: "to_recurse = [] \<or> to_recurse = matches \<or> to_recurse = objs"
    unfolding this_call_def
    by (auto simp: Let_def split: sum.splits prod.splits if_splits)
  from select_matches_subset[OF sel] matching_loop_subset[OF ml] z_sort_subset[OF zs]
  have "set matches \<subseteq> set objects" "set objs \<subseteq> set objects" by auto
  with tr show ?thesis by auto
qed

text \<open>
  \<^verbatim>\<open>recurse\<close> (lines 132 to 212): the invocation, then the loop over \<open>to_recurse\<close>, which
  passes over what is not a \<^verbatim>\<open>Group\<close> or \<^verbatim>\<open>Layer\<close> and descends into the children
  of the others.
\<close>

function recurse :: "node \<Rightarrow> node list \<Rightarrow> string \<Rightarrow> outcome" where
  "recurse root objects cur_xpath =
     (case this_call root objects cur_xpath of
        (msgs, Inl e) \<Rightarrow> (msgs, Inl e)
      | (msgs, Inr (output, to_recurse, xpath')) \<Rightarrow>
          seq_results msgs output
            (map (\<lambda>obj. recurse root (children obj) xpath')
                 (filter is_iterable to_recurse)))"
  by pat_completeness auto
termination
proof (relation "measure (\<lambda>(root, objects, xp). size_list size objects)")
  show "wf (measure (\<lambda>(root, objects, xp). size_list size objects))" by simp
next
  fix root objects cur_xpath msgs res r out r' to_recurse xp obj
  assume "(msgs, res) = this_call root objects cur_xpath" "res = Inr r"
    "(out, r') = r" "(to_recurse, xp) = r'" "obj \<in> set (filter is_iterable to_recurse)"
  then have "this_call root objects cur_xpath = (msgs, Inr (out, to_recurse, xp))"
    and "obj \<in> set to_recurse" by auto
  with this_call_subset have "obj \<in> set objects" by blast
  then show "((root, children obj, xp), (root, objects, cur_xpath))
               \<in> measure (\<lambda>(root, objects, xp). size_list size objects)"
    by (simp add: size_children_less)
qed

declare recurse.simps [simp del]

text \<open>
  What \<^verbatim>\<open>find\<close> is given: an element (the document root, a group), the selection (an
  \<^verbatim>\<open>ElementList\<close>, here the list of its values) or a plain list of elements.
\<close>

datatype query_obj = Element node | ElementList "node list" | NodeList "node list"

text \<open>
  \<^verbatim>\<open>find\<close> (lines 214 to 223).  For an element that is not the document root the
  candidates are its children: \<^verbatim>\<open>list(obj)\<close> and \<^verbatim>\<open>element in obj\<close> both range over them.
\<close>

definition find_xpath :: "node \<Rightarrow> query_obj \<Rightarrow> string \<Rightarrow> outcome" where
  "find_xpath root obj xpath =
     (case obj of
        ElementList vs \<Rightarrow> recurse root (filter (\<lambda>child. \<not> is_meta child) vs) xpath
      | Element n \<Rightarrow>
          (if kind n = SvgDocumentElement
           then recurse root (filter (\<lambda>child. \<not> is_meta child) (children n)) xpath
           else recurse root (children n) xpath)
      | NodeList xs \<Rightarrow> recurse root xs xpath)"

section \<open>Recursion depth\<close>

text \<open>
  The same evaluation with a bound on the depth of the recursion: \<open>fuel\<close> invocations may
  be nested, and \<open>None\<close> says that a further one was needed.  The loop over \<open>to_recurse\<close>
  stops at the first exception, so what comes after it needs no fuel.
\<close>

fun seq_fuel :: "string list \<Rightarrow> node list \<Rightarrow> outcome option list \<Rightarrow> outcome option" where
  "seq_fuel msgs output [] = Some (msgs, Inr output)"
| "seq_fuel msgs output (None # rs) = None"
| "seq_fuel msgs output (Some (m, Inl e) # rs) = Some (msgs @ m, Inl e)"
| "seq_fuel msgs output (Some (m, Inr ys) # rs) = seq_fuel (msgs @ m) (output @ ys) rs"

fun recurse_fuel :: "nat \<Rightarrow> node \<Rightarrow> node list \<Rightarrow> string \<Rightarrow> outcome option" where
  "recurse_fuel 0 root objects cur_xpath = None"
| "recurse_fuel (Suc fuel) root objects cur_xpath =
     (case this_call root objects cur_xpath of
        (msgs, Inl e) \<Rightarrow> Some (msgs, Inl e)
      | (msgs, Inr (output, to_recurse, xpath')) \<Rightarrow>
          seq_fuel msgs output
            (map (\<lambda>obj. recurse_fuel fuel root (children obj) xpath')
                 (filter is_iterable to_recurse)))"

text \<open>How deep containers are nested in an element, and in the deepest of a list.\<close>

fun container_depth :: "node \<Rightarrow> nat" where
  "container_depth (Node i k cs) =
     (if k = Group \<or> k = Layer then Suc (foldr max (map container_depth cs) 0) else 0)"

definition nesting :: "node list \<Rightarrow> nat" where
  "nesting objs = foldr max (map container_depth objs) 0"

text \<open>
  The steps of an expression as \<^verbatim>\<open>recurse\<close> reads them, one match of the pattern after
  the other on what the match before left over.  Each match uses up at least its axis and
  its type, which is why there are finitely many.
\<close>

lemma opt_minus_length: "opt_minus s = (m, r) \<Longrightarrow> length r \<le> length s"
  unfolding opt_minus_def by (auto split: list.splits if_splits)

lemma colon_part_length: "colon_part s = (m, r) \<Longrightarrow> length r \<le> length s"
proof (cases s)
  case Nil
  assume "colon_part s = (m, r)"
  with Nil show ?thesis by (simp add: colon_part_def)
next
  case (Cons c t)
  assume a: "colon_part s = (m, r)"
  show ?thesis
  proof (cases "c = CHR '':''")
    case False
    with a Cons show ?thesis by (simp add: colon_part_def)
  next
    case True
    obtain m1 t1 where om: "opt_minus t = (m1, t1)" by (cases "opt_minus t")
    with a Cons True have "r = dropWhile is_digit t1" by (simp add: colon_part_def)
    then have "length r \<le> length t1" by (simp add: length_dropWhile_le)
    with opt_minus_length[OF om] Cons show ?thesis by simp
  qed
qed

lemma bracket_length:
  assumes "bracket s = Some (n, r)"
  shows "length r \<le> length s"
proof (cases s)
  case Nil
  with assms show ?thesis by (simp add: bracket_def)
next
  case (Cons c s1)
  obtain m s2 where om: "opt_minus s1 = (m, s2)" by (cases "opt_minus s1")
  obtain r1 s4 where c1: "colon_part (dropWhile is_digit s2) = (r1, s4)"
    by (cases "colon_part (dropWhile is_digit s2)")
  obtain r2 s5 where c2: "(if r1 = [] then ([], s4) else colon_part s4) = (r2, s5)"
    by (cases "if r1 = [] then ([], s4) else colon_part s4")
  have l5: "length s5 \<le> length s4"
    using c2 colon_part_length[of s4 r2 s5] by (auto split: if_splits)
  have l4: "length s4 \<le> length s2"
    using colon_part_length[OF c1] length_dropWhile_le[of is_digit s2] by simp
  from assms Cons om c1 c2 have "\<exists>c'. s5 = c' # r"
    by (auto simp: bracket_def Let_def split: if_splits list.splits)
  then have "length r \<le> length s5" by auto
  with l5 l4 opt_minus_length[OF om] Cons show ?thesis by simp
qed

lemma after_axis_length:
  assumes "after_axis s = Some (ty, n, next)"
  shows "length next \<le> length s"
proof (cases s)
  case Nil
  with assms show ?thesis by (simp add: after_axis_def)
next
  case (Cons c t)
  define r where "r = (if is_word c then dropWhile is_word s else t)"
  have r: "length r \<le> length s"
  proof (cases "is_word c")
    case True
    then show ?thesis unfolding r_def by (simp add: length_dropWhile_le)
  next
    case False
    then show ?thesis unfolding r_def using Cons by simp
  qed
  have nx: "(\<exists>r'. bracket r = Some (n, r') \<and> next = takeWhile (\<lambda>x. x \<noteq> CHR 0x0A) r')
          \<or> next = takeWhile (\<lambda>x. x \<noteq> CHR 0x0A) r"
    using assms Cons unfolding r_def after_axis_def Let_def
    by (simp split: if_splits option.splits prod.splits)
  from nx show ?thesis
  proof
    assume "\<exists>r'. bracket r = Some (n, r') \<and> next = takeWhile (\<lambda>x. x \<noteq> CHR 0x0A) r'"
    then obtain r' where b: "bracket r = Some (n, r')" and n: "next = takeWhile (\<lambda>x. x \<noteq> CHR 0x0A) r'"
      by blast
    have "length next \<le> length r'" unfolding n by (rule length_takeWhile_le)
    with bracket_length[OF b] r show ?thesis by simp
  next
    assume "next = takeWhile (\<lambda>x. x \<noteq> CHR 0x0A) r"
    then have "length next \<le> length r" by (simp add: length_takeWhile_le)
    with r show ?thesis by simp
  qed
qed

lemma match_here_length:
  assumes "match_here s = Some (axis, ty, n, next)"
  shows "length next < length s"
proof (cases s)
  case Nil
  with assms show ?thesis by (simp add: match_here_def)
next
  case (Cons c t)
  define two where "two = (case t of
        c' # t' \<Rightarrow> (if c' = CHR ''/'' then map_option (Pair ''//'') (after_axis t') else None)
      | [] \<Rightarrow> None)"
  from assms Cons have res: "(case two of Some r \<Rightarrow> Some r
      | None \<Rightarrow> map_option (Pair ''/'') (after_axis t)) = Some (axis, ty, n, next)"
    unfolding match_here_def two_def by (simp split: if_splits)
  show ?thesis
  proof (cases two)
    case None
    with res have "after_axis t = Some (ty, n, next)" by auto
    from after_axis_length[OF this] Cons show ?thesis by simp
  next
    case (Some r)
    with res have "two = Some (axis, ty, n, next)" by simp
    then obtain t' where "after_axis t' = Some (ty, n, next)" "length t' < length t"
      unfolding two_def by (cases t) (auto split: if_splits)
    with after_axis_length[of t' ty n "next"] Cons show ?thesis by simp
  qed
qed

lemma findall_first_length:
  "findall_first s = Inr (axis, ty, n, next) \<Longrightarrow> length next < length s"
proof (induction s)
  case Nil
  then show ?case by simp
next
  case (Cons c t)
  show ?case
  proof (cases "match_here (c # t)")
    case None
    with Cons show ?thesis by force
  next
    case (Some r)
    with Cons.prems have "match_here (c # t) = Some (axis, ty, n, next)" by simp
    then show ?thesis by (rule match_here_length)
  qed
qed

text \<open>The number of invocations an expression can nest when no step is a descendant step.\<close>

function step_count :: "string \<Rightarrow> nat" where
  "step_count xpath =
     (case findall_first xpath of
        Inl e \<Rightarrow> 1
      | Inr (axis, this_type, this_n, next_xpath) \<Rightarrow>
          (if next_xpath = [] then 1 else Suc (step_count next_xpath)))"
  by pat_completeness auto
termination
  by (relation "measure length") (auto simp: findall_first_length)

function immediate_only :: "string \<Rightarrow> bool" where
  "immediate_only xpath =
     (case findall_first xpath of
        Inl e \<Rightarrow> True
      | Inr (axis, this_type, this_n, next_xpath) \<Rightarrow>
          axis \<noteq> ''//'' \<and> (next_xpath = [] \<or> immediate_only next_xpath))"
  by pat_completeness auto
termination
  by (relation "measure length") (auto simp: findall_first_length)

section \<open>What a wildcard descendant query lists\<close>

text \<open>
  Below an element: the children of a \<^verbatim>\<open>Group\<close> or \<^verbatim>\<open>Layer\<close>, then what is below each
  child in turn; nothing for an element of another class.
\<close>

fun below :: "node \<Rightarrow> node list" where
  "below (Node i k cs) = (if k = Group \<or> k = Layer then cs @ concat (map below cs) else [])"

definition level_order :: "node list \<Rightarrow> node list" where
  "level_order xs = xs @ concat (map below xs)"

section \<open>Example documents\<close>

definition doc_nested :: node where
  "doc_nested = Node 0 SvgDocumentElement
     [Node 1 Defs [],
      Node 2 Group [Node 3 PathElement [], Node 4 Defs []],
      Node 5 PathElement []]"

definition g0 :: node where "g0 = Node 1 Group []"
definition g1 :: node where "g1 = Node 3 Group [Node 4 PathElement []]"
definition g2 :: node where "g2 = Node 5 Group []"

definition doc_groups :: node where
  "doc_groups = Node 0 SvgDocumentElement
     [g0, Node 2 PathElement [], g1, g2, Node 6 ImageElement []]"

text \<open>An element of another document.\<close>

definition stray :: node where "stray = Node 7 PathElement []"

section \<open>Facts about document order\<close>

lemma z_iter_loop_filter:
  "distinct T \<Longrightarrow> set (filter (\<lambda>e. e \<in> set A) T) \<subseteq> set L \<Longrightarrow> c = int (length L) \<Longrightarrow>
   z_iter_loop A T L c = Inr (filter (\<lambda>e. e \<in> set A) T)"
proof (induction T arbitrary: L c)
  case Nil
  then show ?case by simp
next
  case (Cons a T)
  show ?case
  proof (cases "a \<in> set A")
    case False
    with Cons show ?thesis by simp
  next
    case True
    with Cons.prems have aL: "a \<in> set L" by auto
    have rest: "set (filter (\<lambda>e. e \<in> set A) T) \<subseteq> set (remove1 a L)"
    proof
      fix x assume x: "x \<in> set (filter (\<lambda>e. e \<in> set A) T)"
      with Cons.prems have "x \<in> set L" "x \<noteq> a" by auto
      then show "x \<in> set (remove1 a L)" by simp
    qed
    have len: "int (length L) - 1 = int (length (remove1 a L))"
      using aL by (simp add: length_remove1) (cases L; simp)
    show ?thesis
    proof (cases "c - 1 = 0")
      case True
      with len Cons.prems have "remove1 a L = []" by simp
      with rest have "filter (\<lambda>e. e \<in> set A) T = []" by simp
      with True \<open>a \<in> set A\<close> aL show ?thesis by (simp add: list_remove_def)
    next
      case False
      from Cons.prems have "distinct T" by simp
      from Cons.IH[OF this rest] len Cons.prems
      have "z_iter_loop A T (remove1 a L) (c - 1) = Inr (filter (\<lambda>e. e \<in> set A) T)" by simp
      with False \<open>a \<in> set A\<close> aL show ?thesis by (simp add: list_remove_def)
    qed
  qed
qed

lemma z_sort_filter:
  "distinct (iter root) \<Longrightarrow> z_sort root S = Inr (filter (\<lambda>e. e \<in> set S) (iter root))"
  unfolding z_sort_def z_iter_def
  by (rule z_iter_loop_filter) auto

lemma subseq_heads_concat: "subseq cs (concat (map iter cs))"
proof (induction cs)
  case Nil
  then show ?case by simp
next
  case (Cons c cs)
  obtain i k ds where c: "c = Node i k ds" by (cases c)
  have "subseq (c # cs) (c # (concat (map iter ds) @ concat (map iter cs)))"
    using Cons.IH by (simp add: subseq_drop_many)
  then show ?case by (simp add: c)
qed

lemma subseq_children_iter: "subseq (children n) (iter n)"
proof (cases n)
  case (Node i k cs)
  have "subseq cs ([Node i k cs] @ concat (map iter cs))"
    by (rule subseq_drop_many) (rule subseq_heads_concat)
  with Node show ?thesis by simp
qed

lemma subseq_iter_concat: "c \<in> set cs \<Longrightarrow> subseq (iter c) (concat (map iter cs))"
proof (induction cs)
  case Nil
  then show ?case by simp
next
  case (Cons a cs)
  then show ?case
    by (auto simp: subseq_rev_drop_many subseq_drop_many)
qed

lemma subseq_iter_iter: "n \<in> set (iter root) \<Longrightarrow> subseq (iter n) (iter root)"
proof (induction root)
  case (Node i k cs)
  show ?case
  proof (cases "n = Node i k cs")
    case True
    then show ?thesis by simp
  next
    case False
    with Node.prems obtain c where c: "c \<in> set cs" "n \<in> set (iter c)" by auto
    from Node.IH[OF this] have "subseq (iter n) (iter c)" .
    also have "subseq (iter c) (concat (map iter cs))" by (rule subseq_iter_concat[OF c(1)])
    finally have "subseq (iter n) (concat (map iter cs))" .
    then have "subseq (iter n) ([Node i k cs] @ concat (map iter cs))"
      by (rule subseq_drop_many)
    then show ?thesis by simp
  qed
qed

lemma children_subseq_doc:
  assumes "n \<in> set (iter root)"
  shows "subseq (children n) (iter root)"
  using subseq_children_iter[of n] subseq_iter_iter[OF assms] by (rule subseq_order.trans)

lemma filter_mem_subseq:
  "subseq xs T \<Longrightarrow> distinct T \<Longrightarrow> filter (\<lambda>e. e \<in> set xs) T = xs"
proof (induction rule: list_emb.induct)
  case (list_emb_Nil ys)
  then show ?case by simp
next
  case (list_emb_Cons xs ys y)
  then have "y \<notin> set xs" using list_emb_set[OF list_emb_Cons.hyps] by (auto dest: list_emb_set)
  with list_emb_Cons show ?case by simp
next
  case (list_emb_Cons2 x y xs ys)
  then have "x \<notin> set ys" by simp
  then have "filter (\<lambda>e. e \<in> set (x # xs)) ys = filter (\<lambda>e. e \<in> set xs) ys"
    by (intro filter_cong) auto
  with list_emb_Cons2 show ?case by simp
qed

lemma z_sort_subseq:
  "distinct (iter root) \<Longrightarrow> subseq xs (iter root) \<Longrightarrow> z_sort root xs = Inr xs"
  by (simp add: z_sort_filter filter_mem_subseq)

text \<open>
  C10: on a document whose elements are pairwise different objects, \<open>z_sort\<close> never
  raises; its output has no element twice, whatever duplicates the input has; it holds
  exactly the input elements that the traversal from the root reaches, the others being
  left out without an error; so it is at most as long as the input.
\<close>

theorem z_sort_distinct_reachable:
  assumes "distinct (iter root)"
  shows "\<exists>ys. z_sort root S = Inr ys \<and> distinct ys
           \<and> set ys = set S \<inter> set (iter root) \<and> length ys \<le> length S"
proof -
  let ?ys = "filter (\<lambda>e. e \<in> set S) (iter root)"
  have d: "distinct ?ys" using assms by simp
  have s: "set ?ys = set S \<inter> set (iter root)" by auto
  have "length ?ys = card (set ?ys)" using distinct_card[OF d] by (rule sym)
  also have "\<dots> \<le> card (set S)" by (rule card_mono) (auto simp: s)
  also have "\<dots> \<le> length S" by (rule card_length)
  finally have "length ?ys \<le> length S" .
  with d s z_sort_filter[OF assms, of S] show ?thesis by blast
qed

theorem z_sort_distinct_reachable_witness:
  "distinct (iter doc_groups) \<and>
   (\<exists>ys. z_sort doc_groups [g2, stray, g0, g2] = Inr ys \<and> distinct ys
      \<and> set ys = set [g2, stray, g0, g2] \<inter> set (iter doc_groups)
      \<and> length ys \<le> length [g2, stray, g0, g2])"
proof -
  have d: "distinct (iter doc_groups)" by code_simp
  from z_sort_distinct_reachable[OF d, of "[g2, stray, g0, g2]"] d show ?thesis by blast
qed

text \<open>
  C2: ordering is idempotent.  On a document whose elements are pairwise different
  objects \<open>z_sort\<close> returns a list for every input, and ordering that list again returns
  the same list.
\<close>

theorem z_sort_idempotent:
  assumes "distinct (iter root)"
  shows "\<exists>ys. z_sort root S = Inr ys \<and> z_sort root ys = Inr ys"
proof -
  have "z_sort root (filter (\<lambda>e. e \<in> set S) (iter root)) = Inr (filter (\<lambda>e. e \<in> set S) (iter root))"
    using assms by (intro z_sort_subseq) simp_all
  with z_sort_filter[OF assms, of S] show ?thesis by simp
qed


theorem z_sort_idempotent_witness:
  "distinct (iter doc_groups) \<and>
   (\<exists>ys. z_sort doc_groups [g2, stray, g0, g2] = Inr ys \<and> z_sort doc_groups ys = Inr ys)"
proof -
  have d: "distinct (iter doc_groups)" by code_simp
  from z_sort_idempotent[OF d, of "[g2, stray, g0, g2]"] d show ?thesis by blast
qed

section \<open>One invocation\<close>

lemma matching_loop_star: "matching_loop ''*'' objs = Inr objs"
  by (induction objs) (simp_all add: match_type_def)

lemma matching_loop_known:
  "ty \<noteq> ''*'' \<Longrightarrow> tag_dict ty = Some k \<Longrightarrow>
   matching_loop ty objs = Inr (filter (\<lambda>obj. kind obj = k) objs)"
  by (induction objs) (simp_all add: match_type_def)

lemma matching_loop_unknown:
  "ty \<noteq> ''*'' \<Longrightarrow> tag_dict ty = None \<Longrightarrow> objs \<noteq> [] \<Longrightarrow>
   matching_loop ty objs = Inl (KeyError ty)"
  by (cases objs) (simp_all add: match_type_def)

lemma this_call_ok:
  assumes "z_sort root S = Inr objs"
    and "findall_first xp = Inr (axis, ty, n, next)"
    and "convert_n n = Inr idx"
    and "matching_loop ty objs = Inr ms"
    and "select_matches idx ms = (msgs, Inr matches)"
  shows "this_call root S xp =
           (msgs, Inr (if axis \<noteq> ''//'' \<and> next \<noteq> [] then [] else matches,
                       if axis \<noteq> ''//'' then (if next = [] then [] else matches) else objs,
                       if axis \<noteq> ''//'' then next else xp))"
  using assms by (simp add: this_call_def Let_def)

lemma recurse_last_step:
  assumes "z_sort root S = Inr objs"
    and "findall_first xp = Inr (axis, ty, n, [])"
    and "axis \<noteq> ''//''"
    and "convert_n n = Inr idx"
    and "matching_loop ty objs = Inr ms"
    and "select_matches idx ms = (msgs, Inr matches)"
  shows "recurse root S xp = (msgs, Inr matches)"
  using this_call_ok[OF assms(1,2,4,5,6)] assms(3) by (simp add: recurse.simps[of root S xp])

section \<open>Index selectors\<close>

lemma parse_g0: "findall_first ''/g[0]'' = Inr (''/'', ''g'', ''0'', [])" by code_simp
lemma parse_gm1: "findall_first ''/g[-1]'' = Inr (''/'', ''g'', ''-1'', [])" by code_simp
lemma parse_g02: "findall_first ''/g[0:2]'' = Inr (''/'', ''g'', ''0:2'', [])" by code_simp
lemma conv_0: "convert_n ''0'' = Inr (Index 0)" by code_simp
lemma conv_m1: "convert_n ''-1'' = Inr (Index (- 1))" by code_simp
lemma conv_02: "convert_n ''0:2'' = Inr (Slice [Some 0, Some 2])" by code_simp
lemma tag_g: "tag_dict ''g'' = Some Group" by code_simp

lemma sel0: "select_matches (Index 0) [a, b, c] = ([], Inr [a])"
  by (simp add: select_matches_def)
lemma selm1: "select_matches (Index (- 1)) [a, b, c] = ([], Inr [c])"
  by (simp add: select_matches_def)
lemma upt_0_2: "[0..<2] = [0, Suc 0]"
  by (simp add: numeral_2_eq_2 upt_conv_Cons)
lemma sel02: "select_matches (Slice [Some 0, Some 2]) [a, b, c] = ([], Inr [a, b])"
  by (simp add: select_matches_def py_slice_def slice_start_def slice_stop_def clamp_bound_def
      slice_length_def upt_0_2)

text \<open>
  C3: three sibling \<^verbatim>\<open>Group\<close> elements in the order \<open>ga\<close>, \<open>gb\<close>, \<open>gc\<close> under one
  element of the document, queried together with any candidates \<open>X\<close> that are not groups
  and in any order: \<^verbatim>\<open>/g[0]\<close> returns \<open>[ga]\<close>, \<^verbatim>\<open>/g[-1]\<close> returns \<open>[gc]\<close> and
  \<^verbatim>\<open>/g[0:2]\<close> returns \<open>[ga, gb]\<close>.  The index counts within the groups only, from
  their end when negative, whatever else is among the candidates.
\<close>

theorem index_selectors_on_sibling_groups:
  assumes "distinct (iter root)"
    and "p \<in> set (iter root)"
    and "subseq [ga, gb, gc] (children p)"
    and "kind ga = Group" "kind gb = Group" "kind gc = Group"
    and "set S = {ga, gb, gc} \<union> X"
    and "\<forall>x\<in>X. kind x \<noteq> Group"
  shows "find_xpath root (NodeList S) ''/g[0]'' = ([], Inr [ga])
       \<and> find_xpath root (NodeList S) ''/g[-1]'' = ([], Inr [gc])
       \<and> find_xpath root (NodeList S) ''/g[0:2]'' = ([], Inr [ga, gb])"
proof -
  let ?T = "iter root"
  let ?objs = "filter (\<lambda>e. e \<in> set S) ?T"
  have zs: "z_sort root S = Inr ?objs" by (rule z_sort_filter[OF assms(1)])
  have sub: "subseq [ga, gb, gc] ?T"
    using assms(3) children_subseq_doc[OF assms(2)] by (rule subseq_order.trans)
  have "filter (\<lambda>obj. kind obj = Group) ?objs = filter (\<lambda>e. e \<in> set [ga, gb, gc]) ?T"
    unfolding filter_filter using assms(4-8) by (intro filter_cong) auto
  also have "\<dots> = [ga, gb, gc]" by (rule filter_mem_subseq[OF sub assms(1)])
  finally have ml: "matching_loop ''g'' ?objs = Inr [ga, gb, gc]"
    by (simp add: matching_loop_known[OF _ tag_g])
  have "recurse root S ''/g[0]'' = ([], Inr [ga])"
    by (rule recurse_last_step[OF zs parse_g0 _ conv_0 ml sel0]) simp
  moreover have "recurse root S ''/g[-1]'' = ([], Inr [gc])"
    by (rule recurse_last_step[OF zs parse_gm1 _ conv_m1 ml selm1]) simp
  moreover have "recurse root S ''/g[0:2]'' = ([], Inr [ga, gb])"
    by (rule recurse_last_step[OF zs parse_g02 _ conv_02 ml sel02]) simp
  ultimately show ?thesis by (simp add: find_xpath_def)
qed

theorem index_selectors_on_sibling_groups_witness:
  "find_xpath doc_groups (NodeList [Node 6 ImageElement [], g2, g0, Node 2 PathElement [], g1]) ''/g[0]'' = ([], Inr [g0])
 \<and> find_xpath doc_groups (NodeList [Node 6 ImageElement [], g2, g0, Node 2 PathElement [], g1]) ''/g[-1]'' = ([], Inr [g2])
 \<and> find_xpath doc_groups (NodeList [Node 6 ImageElement [], g2, g0, Node 2 PathElement [], g1]) ''/g[0:2]'' = ([], Inr [g0, g1])"
proof -
  have 1: "distinct (iter doc_groups)" by code_simp
  have 2: "doc_groups \<in> set (iter doc_groups)" by code_simp
  have 3: "subseq [g0, g1, g2] (children doc_groups)" by code_simp
  have 4: "kind g0 = Group" "kind g1 = Group" "kind g2 = Group" by code_simp+
  have 5: "set [Node 6 ImageElement [], g2, g0, Node 2 PathElement [], g1]
           = {g0, g1, g2} \<union> {Node 6 ImageElement [], Node 2 PathElement []}" by auto
  have 6: "\<forall>x\<in>{Node 6 ImageElement [], Node 2 PathElement []}. kind x \<noteq> Group" by simp
  from index_selectors_on_sibling_groups[OF 1 2 3 4 5 6] show ?thesis .
qed

end
